theory Spec2Isabelle
  imports Complex_Main
begin

section \<open>The animated counter of the landing pages\<close>

text \<open>
  Both pages (\<^verbatim>\<open>src/app/page.tsx\<close> and its sibling) define the same React component
  \<^verbatim>\<open>Counter\<close>: a piece of state \<^verbatim>\<open>count\<close>, a visibility hook, an effect that
  starts a \<^verbatim>\<open>requestAnimationFrame\<close> loop once the element is in view, and a render
  of \<^verbatim>\<open>count.toLocaleString()\<close> followed by the suffix. The sibling page has no
  \<^verbatim>\<open>suffix\<close> prop; it is the instance of this model whose suffix is absent.

  The component is embedded as a transition system: the state holds the React state, the
  variables of the effect's closure and the browser's queue of frame requests; the
  events are what the environment delivers (an intersection report, a display frame with
  its timestamp, the unmount).
\<close>

subsection \<open>JavaScript numbers\<close>

text \<open>
  A JavaScript \<^verbatim>\<open>number\<close> is a finite value, \<^verbatim>\<open>NaN\<close> or an infinity. Finite values
  are exact here: the rounding of IEEE doubles is not modelled, and the two signed zeros
  are one value. Props and frame timestamps are finite; the quotient computed by
  \<^verbatim>\<open>animate\<close> need not be, so division is written out where the divisor is zero.
\<close>

datatype 'a jsnum = Fin 'a | NaN | PosInf | NegInf

definition js_div :: "real \<Rightarrow> real \<Rightarrow> real jsnum" where
  "js_div a b =
     (if b \<noteq> 0 then Fin (a / b)
      else if a = 0 then NaN
      else if 0 < a then PosInf
      else NegInf)"

fun Math_min :: "real jsnum \<Rightarrow> real jsnum \<Rightarrow> real jsnum" where
  "Math_min NaN y = NaN"
| "Math_min x NaN = NaN"
| "Math_min NegInf y = NegInf"
| "Math_min x NegInf = NegInf"
| "Math_min PosInf y = y"
| "Math_min x PosInf = x"
| "Math_min (Fin a) (Fin b) = Fin (min a b)"

fun js_mul :: "real jsnum \<Rightarrow> real \<Rightarrow> real jsnum" where
  "js_mul (Fin a) b = Fin (a * b)"
| "js_mul NaN b = NaN"
| "js_mul PosInf b = (if 0 < b then PosInf else if b < 0 then NegInf else NaN)"
| "js_mul NegInf b = (if 0 < b then NegInf else if b < 0 then PosInf else NaN)"

fun Math_floor :: "real jsnum \<Rightarrow> int jsnum" where
  "Math_floor (Fin a) = Fin \<lfloor>a\<rfloor>"
| "Math_floor NaN = NaN"
| "Math_floor PosInf = PosInf"
| "Math_floor NegInf = NegInf"

fun js_lt :: "real jsnum \<Rightarrow> real \<Rightarrow> bool" where
  "js_lt (Fin a) b = (a < b)"
| "js_lt NaN b = False"
| "js_lt PosInf b = False"
| "js_lt NegInf b = True"

subsection \<open>Props and state\<close>

text \<open>
  \<^verbatim>\<open>interface CounterProps { end: number; duration?: number; suffix?: string }\<close>.
  An optional prop that is left out is \<open>None\<close>; the component's parameter list supplies
  the defaults \<^verbatim>\<open>duration = 2\<close> and \<^verbatim>\<open>suffix = ''\<close>. The prop \<^verbatim>\<open>end\<close> is named
  \<open>endp\<close>, the source's name being reserved.
\<close>

record CounterProps =
  endp :: real
  duration :: "real option"
  suffix :: "string option"

definition duration_of :: "CounterProps \<Rightarrow> real" where
  "duration_of p = (case duration p of None \<Rightarrow> 2 | Some d \<Rightarrow> d)"

definition suffix_of :: "CounterProps \<Rightarrow> string" where
  "suffix_of p = (case suffix p of None \<Rightarrow> [] | Some x \<Rightarrow> x)"

text \<open>
  The state of one mounted instance. \<open>count\<close> is the React state; \<open>isInView\<close> the value
  the visibility hook returned at the last render; \<open>startTime\<close> and \<open>animationFrame\<close>
  are the two \<^verbatim>\<open>let\<close> variables of the effect's closure (\<open>None\<close> is \<^verbatim>\<open>undefined\<close>);
  \<open>frames\<close> is the browser's list of pending frame requests and \<open>nextHandle\<close> the handle
  it hands out next. The last three fields are history variables that no transition
  reads: how often the effect started the animation, how often \<^verbatim>\<open>setCount\<close> was called,
  and the \<^verbatim>\<open>progress\<close> computed by the latest tick (0 before the first).

  \<open>first_render\<close> is the instance as its first render leaves it, before any effect has
  run: \<^verbatim>\<open>useState<number>(0)\<close>, the hook's first value \<^verbatim>\<open>false\<close>, no closure yet.
\<close>

record Counter =
  count :: "int jsnum"
  isInView :: bool
  mounted :: bool
  startTime :: "real option"
  animationFrame :: "nat option"
  frames :: "nat list"
  nextHandle :: nat
  starts :: nat
  writes :: nat
  progress :: "real jsnum"

definition first_render :: Counter where
  "first_render = \<lparr>count = Fin 0, isInView = False, mounted = True, startTime = None,
                   animationFrame = None, frames = [], nextHandle = 1,
                   starts = 0, writes = 0, progress = Fin 0\<rparr>"

subsection \<open>The browser's frame queue\<close>

text \<open>
  \<^verbatim>\<open>animationFrame = requestAnimationFrame(animate)\<close>: the browser queues the callback
  under a fresh handle, which the closure stores.
\<close>

definition requestAnimationFrame :: "Counter \<Rightarrow> Counter" where
  "requestAnimationFrame s =
     s\<lparr>animationFrame := Some (nextHandle s),
       frames := frames s @ [nextHandle s],
       nextHandle := nextHandle s + 1\<rparr>"

text \<open>
  \<^verbatim>\<open>cancelAnimationFrame(handle)\<close> removes the request if it is still pending and does
  nothing otherwise, also for \<^verbatim>\<open>undefined\<close>; it has no failure.
\<close>

definition cancelAnimationFrame :: "nat option \<Rightarrow> Counter \<Rightarrow> Counter" where
  "cancelAnimationFrame h s =
     (case h of None \<Rightarrow> s | Some k \<Rightarrow> s\<lparr>frames := removeAll k (frames s)\<rparr>)"

subsection \<open>The tick\<close>

text \<open>\<^verbatim>\<open>if (!startTime) startTime = timestamp\<close>: \<^verbatim>\<open>undefined\<close> and 0 are falsy.\<close>

definition latch :: "real option \<Rightarrow> real \<Rightarrow> real" where
  "latch st timestamp =
     (case st of None \<Rightarrow> timestamp | Some v \<Rightarrow> if v = 0 then timestamp else v)"

definition animate :: "CounterProps \<Rightarrow> real \<Rightarrow> Counter \<Rightarrow> Counter" where
  "animate p timestamp s =
     (let st = latch (startTime s) timestamp;
          pr = Math_min (js_div (timestamp - st) (duration_of p * 1000)) (Fin 1);
          s1 = s\<lparr>startTime := Some st,
                 progress := pr,
                 count := Math_floor (js_mul pr (endp p)),
                 writes := writes s + 1\<rparr>
      in if js_lt pr 1 then requestAnimationFrame s1 else s1)"

subsection \<open>The effect and the events\<close>

text \<open>
  Modelled from the spec: the hook \<^verbatim>\<open>useInView\<close> comes from the animation library,
  whose code is not part of the sources. The component calls it with
  \<^verbatim>\<open>{ once: true }\<close>; the spec describes the trigger as a boolean latch that fires on
  the first intersection and never again. Without \<^verbatim>\<open>once\<close> the hook follows the
  reports.
\<close>

definition useInView :: "bool \<Rightarrow> bool \<Rightarrow> bool \<Rightarrow> bool" where
  "useInView once prev intersecting = (if once then prev \<or> intersecting else intersecting)"

text \<open>
  The effect body, run after the first render and after every render in which
  \<^verbatim>\<open>isInView\<close> changed (the props are fixed for the lifetime of the instance, so the
  other two dependencies never change): \<^verbatim>\<open>if (!isInView) return\<close> leaves at once while
  the element is not in view; otherwise the body opens a fresh closure and requests the
  first frame. Its cleanup, which exists only in the second case, cancels the handle the
  closure holds.
\<close>

definition effect :: "Counter \<Rightarrow> Counter" where
  "effect s =
     (if \<not> isInView s then s
      else requestAnimationFrame (s\<lparr>startTime := None, animationFrame := None,
                                     starts := starts s + 1\<rparr>))"

definition cleanup :: "Counter \<Rightarrow> Counter" where
  "cleanup s = (if isInView s then cancelAnimationFrame (animationFrame s) s else s)"

text \<open>
  Mounting: React runs the effect once after the first render, with the hook's first
  value. \<open>init\<close> is the mounted instance, from which every run starts.
\<close>

definition init :: Counter where
  "init = effect first_render"

datatype event = Intersect bool | Frame real | Unmount

text \<open>
  A frame runs every callback that was pending when the frame began, each with the
  frame's timestamp; requests made by these callbacks wait for the next frame.
\<close>

fun step :: "CounterProps \<Rightarrow> event \<Rightarrow> Counter \<Rightarrow> Counter" where
  "step p (Intersect b) s =
     (if \<not> mounted s then s
      else let v = useInView True (isInView s) b
           in if v = isInView s then s else effect ((cleanup s)\<lparr>isInView := v\<rparr>))"
| "step p (Frame timestamp) s =
     foldl (\<lambda>s' h. animate p timestamp s') (s\<lparr>frames := []\<rparr>) (frames s)"
| "step p Unmount s =
     (if \<not> mounted s then s else (cleanup s)\<lparr>mounted := False\<rparr>)"

definition run :: "CounterProps \<Rightarrow> event list \<Rightarrow> Counter \<Rightarrow> Counter" where
  "run p evs s = foldl (\<lambda>s' e. step p e s') s evs"

fun frame_times :: "event list \<Rightarrow> real list" where
  "frame_times [] = []"
| "frame_times (Frame t # es) = t # frame_times es"
| "frame_times (e # es) = frame_times es"

subsection \<open>Rendering\<close>

text \<open>
  \<^verbatim>\<open>{count.toLocaleString()}{suffix}\<close>. The formatter is the host's: it is a parameter
  of the render. \<open>en_US\<close> is the formatter of the locale \<^verbatim>\<open>en-US\<close> on the values a
  count can take: digits in groups of three separated by commas, a minus sign for a
  negative value.
\<close>

definition render :: "(int jsnum \<Rightarrow> string) \<Rightarrow> CounterProps \<Rightarrow> Counter \<Rightarrow> string" where
  "render toLocaleString p s = toLocaleString (count s) @ suffix_of p"

definition digit_char :: "nat \<Rightarrow> char" where
  "digit_char d = ''0123456789'' ! d"

fun digits :: "nat \<Rightarrow> string" where
  "digits n = (if n < 10 then [digit_char n] else digits (n div 10) @ [digit_char (n mod 10)])"

declare digits.simps [simp del]

fun group3 :: "string \<Rightarrow> string" where
  "group3 (a # b # c # d # r) = a # b # c # CHR '','' # group3 (d # r)"
| "group3 r = r"

definition en_US :: "int jsnum \<Rightarrow> string" where
  "en_US v =
     (case v of
        Fin i \<Rightarrow> (if i < 0 then ''-'' else []) @ rev (group3 (rev (digits (nat \<bar>i\<bar>))))
      | NaN \<Rightarrow> ''NaN''
      | PosInf \<Rightarrow> [CHR 0xE2, CHR 0x88, CHR 0x9E]
      | NegInf \<Rightarrow> [CHR ''-'', CHR 0xE2, CHR 0x88, CHR 0x9E])"

subsection \<open>Invariant of the reachable states\<close>

text \<open>
  At most one frame request is pending, it is the one whose handle the closure holds,
  and it exists only while the instance is mounted and in view. The animation has been
  started once if the element is in view, and nothing has been written before.
\<close>

definition frame_inv :: "Counter \<Rightarrow> bool" where
  "frame_inv s =
     ((case frames s of
         [] \<Rightarrow> True
       | h # r \<Rightarrow> r = [] \<and> animationFrame s = Some h \<and> isInView s \<and> mounted s) \<and>
      (if isInView s then starts s = 1
       else starts s = 0 \<and> writes s = 0 \<and> count s = Fin 0 \<and> progress s = Fin 0))"

text \<open>
  Along a run whose frame timestamps are \<open>T\<close>, for a positive duration: the progress
  of the latest tick is a number \<open>q\<close> in \<open>[0, 1]\<close>, the count is \<open>\<lfloor>q * end\<rfloor>\<close>, and
  while a frame is pending the latched start is not after the latest frame, at which the
  elapsed fraction is at least \<open>q\<close>; a start of 0, which the next tick replaces, goes
  with \<open>q = 0\<close>.
\<close>

definition start_inv :: "real \<Rightarrow> real list \<Rightarrow> real \<Rightarrow> real option \<Rightarrow> bool" where
  "start_inv D T q st =
     (case st of
        None \<Rightarrow> q = 0
      | Some v \<Rightarrow> (v \<noteq> 0 \<or> q = 0) \<and> (\<exists>tl \<in> set T. v \<le> tl \<and> q \<le> (tl - v) / D))"

definition tick_inv :: "CounterProps \<Rightarrow> real list \<Rightarrow> Counter \<Rightarrow> bool" where
  "tick_inv p T s =
     (\<exists>q. progress s = Fin q \<and> 0 \<le> q \<and> q \<le> 1 \<and> count s = Fin \<lfloor>q * endp p\<rfloor> \<and>
          (frames s = [] \<or> start_inv (duration_of p * 1000) T q (startTime s)))"

subsection \<open>The spec's progress\<close>

text \<open>
  The glossary of the spec: progress is the elapsed time since the animation's start
  divided by the total duration, clamped to \<open>[0, 1]\<close>. These two definitions follow the
  spec's words; \<open>animate\<close> above is the code.
\<close>

definition spec_progress :: "real \<Rightarrow> real \<Rightarrow> real" where
  "spec_progress elapsed durationMs = max 0 (min 1 (elapsed / durationMs))"

text \<open>
  The spec's output at the instant \<open>now\<close> of a run that started at \<open>start\<close>:
  \<open>\<lfloor>progress * target\<rfloor>\<close>.
\<close>

definition spec_displayed :: "real \<Rightarrow> real \<Rightarrow> real \<Rightarrow> real \<Rightarrow> int" where
  "spec_displayed start now durationMs target =
     \<lfloor>spec_progress (now - start) durationMs * target\<rfloor>"

section \<open>Properties\<close>

subsection \<open>Runs and the invariant\<close>

lemma init_state:
  "init = \<lparr>count = Fin 0, isInView = False, mounted = True, startTime = None,
           animationFrame = None, frames = [], nextHandle = 1,
           starts = 0, writes = 0, progress = Fin 0\<rparr>"
  by (simp add: init_def effect_def first_render_def)

lemma run_Nil [simp]: "run p [] s = s"
  by (simp add: run_def)

lemma run_Cons [simp]: "run p (e # evs) s = run p evs (step p e s)"
  by (simp add: run_def)

lemma run_append [simp]: "run p (evs @ evs') s = run p evs' (run p evs s)"
  by (simp add: run_def)

lemma frame_times_append [simp]: "frame_times (evs @ evs') = frame_times evs @ frame_times evs'"
  by (induction evs rule: frame_times.induct) simp_all

lemma step_Frame_idle: "frames s = [] \<Longrightarrow> step p (Frame t) s = s"
  by (cases s) simp

lemma step_Frame_tick: "frames s = [h] \<Longrightarrow> step p (Frame t) s = animate p t (s\<lparr>frames := []\<rparr>)"
  by simp

lemma frame_inv_init: "frame_inv init"
  by (simp add: frame_inv_def init_state)

lemma frame_inv_animate:
  assumes "frame_inv s" and "frames s = [h]"
  shows "frame_inv (animate p t (s\<lparr>frames := []\<rparr>))"
  using assms
  by (simp add: frame_inv_def animate_def Let_def requestAnimationFrame_def)

lemma frame_inv_step: "frame_inv s \<Longrightarrow> frame_inv (step p e s)"
proof (cases e)
  case (Intersect b)
  assume "frame_inv s"
  then show ?thesis using Intersect
    by (auto simp: frame_inv_def useInView_def effect_def cleanup_def requestAnimationFrame_def
          cancelAnimationFrame_def split: list.splits if_splits option.splits)
next
  case (Frame t)
  assume w: "frame_inv s"
  show ?thesis
  proof (cases "frames s")
    case Nil
    then show ?thesis using w Frame by (simp add: frame_inv_def)
  next
    case (Cons h r)
    with w have "frames s = [h]" by (simp add: frame_inv_def)
    then show ?thesis using w Frame frame_inv_animate [of s h p t] by simp
  qed
next
  case Unmount
  assume "frame_inv s"
  then show ?thesis using Unmount
    by (auto simp: frame_inv_def cleanup_def cancelAnimationFrame_def split: list.splits if_splits option.splits)
qed

lemma frame_inv_run: "frame_inv s \<Longrightarrow> frame_inv (run p evs s)"
  by (induction evs arbitrary: s) (simp_all add: frame_inv_step)

lemmas eval_defs = init_state effect_def cleanup_def useInView_def requestAnimationFrame_def
  cancelAnimationFrame_def animate_def latch_def js_div_def duration_of_def suffix_of_def Let_def

lemma frame_inv_reach: "frame_inv (run p evs init)"
  by (simp add: frame_inv_run frame_inv_init)

lemma isInView_animate [simp]: "isInView (animate p t s) = isInView s"
  by (simp add: animate_def Let_def requestAnimationFrame_def)

lemma mounted_animate [simp]: "mounted (animate p t s) = mounted s"
  by (simp add: animate_def Let_def requestAnimationFrame_def)

lemma isInView_ticks [simp]:
  "isInView (foldl (\<lambda>s' h. animate p t s') s0 hs) = isInView s0"
  by (induction hs arbitrary: s0) simp_all

lemma isInView_step: "isInView s \<Longrightarrow> isInView (step p e s)"
  by (cases e) (auto simp: useInView_def cleanup_def cancelAnimationFrame_def split: option.splits)

lemma isInView_run: "isInView s \<Longrightarrow> isInView (run p evs s)"
  by (induction evs arbitrary: s) (simp_all add: isInView_step)



lemma dead_step: "\<not> mounted s \<Longrightarrow> frames s = [] \<Longrightarrow> step p e s = s"
  by (cases e; cases s) simp_all

lemma dead_run: "\<not> mounted s \<Longrightarrow> frames s = [] \<Longrightarrow> run p evs s = s"
  by (induction evs) (simp_all add: dead_step)

lemma unmount_dead:
  assumes "frame_inv s"
  shows "\<not> mounted (step p Unmount s) \<and> frames (step p Unmount s) = [] \<and>
         count (step p Unmount s) = count s \<and> writes (step p Unmount s) = writes s"
  using assms
  by (auto simp: frame_inv_def cleanup_def cancelAnimationFrame_def split: list.splits option.splits if_splits)


subsection \<open>The tick on a reachable state\<close>

lemma animate_fields:
  assumes "duration_of p \<noteq> 0"
  shows "progress (animate p ts s) =
           Fin (min ((ts - latch (startTime s) ts) / (duration_of p * 1000)) 1)"
    and "count (animate p ts s) =
           Fin \<lfloor>min ((ts - latch (startTime s) ts) / (duration_of p * 1000)) 1 * endp p\<rfloor>"
    and "startTime (animate p ts s) = Some (latch (startTime s) ts)"
  using assms
  by (simp_all add: animate_def Let_def js_div_def requestAnimationFrame_def)

lemma pending_tick:
  assumes "s = run p evs init" and "frames s \<noteq> []"
  shows "step p (Frame ts) s = animate p ts (s\<lparr>frames := []\<rparr>)"
proof -
  have "frame_inv s" using assms(1) by (simp add: frame_inv_reach)
  with assms(2) obtain h where "frames s = [h]"
    by (auto simp: frame_inv_def split: list.splits)
  then show ?thesis by simp
qed

lemma start_latch_nonzero:
  assumes "startTime s = Some v" and "v \<noteq> 0"
  shows "startTime (animate p ts s) = Some v"
  using assms by (simp add: animate_def Let_def latch_def requestAnimationFrame_def)


subsection \<open>Exact settlement\<close>



subsection \<open>Cancellation on unmount\<close>

text \<open>
  Claim C5. From every reachable state, in particular from one with a pending frame
  request, the unmount leaves no request pending, and whatever events follow, the number
  of calls of \<^verbatim>\<open>setCount\<close> and the count itself are what they were at the unmount.
  The cleanup is \<open>cancelAnimationFrame\<close>, a total function with no failure: it does
  nothing when the handle is no longer pending.
\<close>

theorem unmount_cancels:
  "frames (step p Unmount (run p evs init)) = [] \<and>
   frames (run p evs' (step p Unmount (run p evs init))) = [] \<and>
   writes (run p evs' (step p Unmount (run p evs init))) = writes (run p evs init) \<and>
   count (run p evs' (step p Unmount (run p evs init))) = count (run p evs init)"
proof -
  let ?s = "run p evs init"
  from unmount_dead [OF frame_inv_reach, of p p evs]
  have u: "\<not> mounted (step p Unmount ?s)" "frames (step p Unmount ?s) = []"
    "count (step p Unmount ?s) = count ?s" "writes (step p Unmount ?s) = writes ?s"
    by simp_all
  from dead_run [OF u(1,2)] u show ?thesis by simp
qed

theorem unmount_cancels_witness:
  "frames (run \<lparr>endp = 284, duration = None, suffix = None\<rparr> [Intersect True, Frame 5, Frame 1005] init) \<noteq> [] \<and>
   writes (run \<lparr>endp = 284, duration = None, suffix = None\<rparr>
             [Intersect True, Frame 5, Frame 1005, Unmount, Frame 1500, Frame 2500] init) = 2 \<and>
   count (run \<lparr>endp = 284, duration = None, suffix = None\<rparr>
            [Intersect True, Frame 5, Frame 1005, Unmount, Frame 1500, Frame 2500] init) = Fin 142"
  using unmount_cancels [of "\<lparr>endp = 284, duration = None, suffix = None\<rparr>"
      "[Intersect True, Frame 5, Frame 1005]" "[Frame 1500, Frame 2500]"]
  by (simp add: eval_defs)

subsection \<open>The one-shot visibility trigger\<close>

lemma mounted_ticks [simp]:
  "mounted (foldl (\<lambda>s' h. animate p t s') s0 hs) = mounted s0"
  by (induction hs arbitrary: s0) simp_all

lemma hidden_step: "\<not> isInView s \<Longrightarrow> e \<noteq> Intersect True \<Longrightarrow> \<not> isInView (step p e s)"
  by (cases e) (auto simp: useInView_def cleanup_def)

lemma hidden_run: "\<not> isInView s \<Longrightarrow> Intersect True \<notin> set evs \<Longrightarrow> \<not> isInView (run p evs s)"
proof (induction evs arbitrary: s)
  case Nil
  then show ?case by simp
next
  case (Cons e evs)
  from Cons.prems have "\<not> isInView (step p e s)" by (intro hidden_step) auto
  with Cons show ?case by simp
qed

lemma mounted_step: "mounted s \<Longrightarrow> e \<noteq> Unmount \<Longrightarrow> mounted (step p e s)"
  by (cases e)
     (auto simp: Let_def useInView_def cleanup_def effect_def requestAnimationFrame_def
        cancelAnimationFrame_def split: option.splits)

lemma mounted_run: "mounted s \<Longrightarrow> Unmount \<notin> set evs \<Longrightarrow> mounted (run p evs s)"
proof (induction evs arbitrary: s)
  case Nil
  then show ?case by simp
next
  case (Cons e evs)
  from Cons.prems have "mounted (step p e s)" by (intro mounted_step) auto
  with Cons show ?case by simp
qed

lemma first_sight:
  assumes "frame_inv s" and "mounted s" and "\<not> isInView s"
  shows "starts (step p (Intersect True) s) = 1 \<and> frames (step p (Intersect True) s) \<noteq> []"
  using assms
  by (simp add: frame_inv_def useInView_def cleanup_def effect_def requestAnimationFrame_def)

text \<open>
  Claim C4. The effect starts the animation at most once in the life of an instance.
  Its run at the mount finds the element not in view and returns, and as long as no
  intersection has been reported, nothing has been started, written or requested. The first report of an intersection on a mounted instance starts the
  animation and requests the first frame. Once started, the number of starts stays 1
  under every later event: leaving and entering the viewport again restarts nothing,
  since the hook is called with \<^verbatim>\<open>once: true\<close> and keeps its value.
\<close>

theorem one_shot_trigger:
  "starts (run p evs init) \<le> 1 \<and>
   (Intersect True \<notin> set evs \<longrightarrow>
      starts (run p evs init) = 0 \<and> writes (run p evs init) = 0 \<and>
      frames (run p evs init) = []) \<and>
   (Intersect True \<notin> set evs \<and> Unmount \<notin> set evs \<longrightarrow>
      starts (run p (evs @ [Intersect True]) init) = 1 \<and>
      frames (run p (evs @ [Intersect True]) init) \<noteq> []) \<and>
   (starts (run p evs init) = 1 \<longrightarrow> starts (run p (evs @ evs') init) = 1)"
proof (intro conjI impI)
  have w: "frame_inv (run p es init)" for es by (rule frame_inv_reach)
  show "starts (run p evs init) \<le> 1"
    using w [of evs] by (simp add: frame_inv_def split: if_splits)
  have i0: "\<not> isInView init" "mounted init" by (simp_all add: init_state)
  {
    assume "Intersect True \<notin> set evs"
    with i0 have h: "\<not> isInView (run p evs init)" by (simp add: hidden_run)
    with w [of evs] show "starts (run p evs init) = 0" "writes (run p evs init) = 0"
      "frames (run p evs init) = []"
      by (auto simp: frame_inv_def split: list.splits)
  }
  {
    assume a: "Intersect True \<notin> set evs \<and> Unmount \<notin> set evs"
    with i0 have h: "\<not> isInView (run p evs init)" and m: "mounted (run p evs init)"
      by (simp_all add: hidden_run mounted_run)
    from first_sight [OF w m h]
    show "starts (run p (evs @ [Intersect True]) init) = 1"
      "frames (run p (evs @ [Intersect True]) init) \<noteq> []"
      by simp_all
  }
  {
    assume "starts (run p evs init) = 1"
    with w [of evs] have "isInView (run p evs init)" by (simp add: frame_inv_def split: if_splits)
    then have "isInView (run p (evs @ evs') init)" by (simp add: isInView_run)
    with w [of "evs @ evs'"] show "starts (run p (evs @ evs') init) = 1"
      by (simp add: frame_inv_def)
  }
qed

theorem one_shot_trigger_witness:
  "Intersect True \<notin> set [Intersect False, Frame 3] \<and>
   starts (run \<lparr>endp = 284, duration = None, suffix = None\<rparr> [Intersect False, Frame 3] init) = 0 \<and>
   starts (run \<lparr>endp = 284, duration = None, suffix = None\<rparr>
             [Intersect False, Frame 3, Intersect True] init) = 1 \<and>
   starts (run \<lparr>endp = 284, duration = None, suffix = None\<rparr>
             ([Intersect False, Frame 3, Intersect True] @
              [Frame 5, Intersect False, Intersect True, Frame 9]) init) = 1"
proof -
  let ?p = "\<lparr>endp = 284, duration = None, suffix = None\<rparr>"
  have a: "Intersect True \<notin> set [Intersect False, Frame 3]"
    "Unmount \<notin> set [Intersect False, Frame 3]" by simp_all
  from one_shot_trigger [of ?p "[Intersect False, Frame 3]"] a
  have b: "starts (run ?p [Intersect False, Frame 3] init) = 0"
    "starts (run ?p ([Intersect False, Frame 3] @ [Intersect True]) init) = 1"
    by blast+
  then have c: "starts (run ?p [Intersect False, Frame 3, Intersect True] init) = 1" by simp
  from one_shot_trigger [of ?p "[Intersect False, Frame 3, Intersect True]"
      "[Frame 5, Intersect False, Intersect True, Frame 9]"] c
  have "starts (run ?p ([Intersect False, Frame 3, Intersect True] @
              [Frame 5, Intersect False, Intersect True, Frame 9]) init) = 1" by blast
  with a b c show ?thesis by blast
qed

subsection \<open>The worked scenario\<close>



subsection \<open>The start timestamp\<close>

text \<open>
  Claim C9, evaluated where it fails. The test \<^verbatim>\<open>!startTime\<close> takes a start of 0 for
  a start not yet captured: after a first frame at timestamp 0 the second frame, at
  1000 ms, captures its own timestamp as the start, and the count it writes is 0 instead
  of \<open>\<lfloor>1000 / 2000 * 100\<rfloor> = 50\<close>. The same two frames one millisecond later keep the
  first start and write 50. (A start other than 0 is kept by every tick:
  \<open>start_latch_nonzero\<close>.)
\<close>

theorem start_latch_zero:
  "startTime (run \<lparr>endp = 100, duration = None, suffix = None\<rparr> [Intersect True, Frame 0] init) = Some 0 \<and>
   startTime (run \<lparr>endp = 100, duration = None, suffix = None\<rparr>
                [Intersect True, Frame 0, Frame 1000] init) = Some 1000 \<and>
   count (run \<lparr>endp = 100, duration = None, suffix = None\<rparr>
            [Intersect True, Frame 0, Frame 1000] init) = Fin 0 \<and>
   count (run \<lparr>endp = 100, duration = None, suffix = None\<rparr>
            [Intersect True, Frame 1, Frame 1001] init) = Fin 50"
  by (simp add: eval_defs)

subsection \<open>The rendered text\<close>

text \<open>
  Claim C8. With the host's formatter \<open>fmt\<close>, the rendered text is the formatted count
  followed by the suffix, which no grouping touches; without a suffix prop (as on the
  sibling page) it is the formatted count alone. Under \<^verbatim>\<open>en-US\<close> a count of 12847 is
  rendered with its thousands separator before the suffix, and the counter with target
  284 and suffix \<^verbatim>\<open>+\<close>, once settled, renders \<^verbatim>\<open>284+\<close>.
\<close>

theorem rendered_text:
  "render fmt p s = fmt (count s) @ suffix_of p \<and>
   (suffix p = None \<longrightarrow> render fmt p s = fmt (count s)) \<and>
   render en_US p (s\<lparr>count := Fin 12847\<rparr>) = ''12,847'' @ suffix_of p \<and>
   render en_US \<lparr>endp = 284, duration = None, suffix = Some ''+''\<rparr>
     (run \<lparr>endp = 284, duration = None, suffix = Some ''+''\<rparr>
        [Intersect True, Frame 5, Frame 2005] init) = ''284+''"
proof (intro conjI impI)
  show "render fmt p s = fmt (count s) @ suffix_of p" by (simp add: render_def)
  show "render fmt p s = fmt (count s)" if "suffix p = None"
    using that by (simp add: render_def suffix_of_def)
  show "render en_US p (s\<lparr>count := Fin 12847\<rparr>) = ''12,847'' @ suffix_of p"
    by (simp add: render_def en_US_def digits.simps digit_char_def)
  have "count (run \<lparr>endp = 284, duration = None, suffix = Some ''+''\<rparr>
        [Intersect True, Frame 5, Frame 2005] init) = Fin 284"
    by (simp add: eval_defs)
  then show "render en_US \<lparr>endp = 284, duration = None, suffix = Some ''+''\<rparr>
     (run \<lparr>endp = 284, duration = None, suffix = Some ''+''\<rparr>
        [Intersect True, Frame 5, Frame 2005] init) = ''284+''"
    by (simp add: render_def suffix_of_def en_US_def digits.simps digit_char_def)
qed

theorem rendered_text_witness:
  "suffix \<lparr>endp = 284, duration = None, suffix = None\<rparr> = None \<and>
   render en_US \<lparr>endp = 284, duration = None, suffix = None\<rparr> (init\<lparr>count := Fin 1284\<rparr>) = ''1,284''"
proof -
  let ?p = "\<lparr>endp = 284, duration = None, suffix = None\<rparr>"
  have a: "suffix ?p = None" by simp
  with rendered_text [of en_US ?p "init\<lparr>count := Fin 1284\<rparr>"]
  have "render en_US ?p (init\<lparr>count := Fin 1284\<rparr>) = en_US (count (init\<lparr>count := Fin 1284\<rparr>))"
    by blast
  then show ?thesis by (simp add: en_US_def digits.simps digit_char_def)
qed

subsection \<open>A duration that is not positive\<close>

lemma zero_duration_step:
  assumes "duration_of p = 0" and "frame_inv s" and "frames s \<noteq> [] \<longrightarrow> startTime s = None"
  shows "frames (step p e s) \<noteq> [] \<longrightarrow> startTime (step p e s) = None"
proof (cases e)
  case (Intersect b)
  then show ?thesis using assms(2,3)
    by (auto simp: Let_def useInView_def effect_def cleanup_def requestAnimationFrame_def
          cancelAnimationFrame_def frame_inv_def split: option.splits list.splits if_splits)
next
  case (Frame t)
  show ?thesis
  proof (cases "frames s")
    case Nil
    then show ?thesis using Frame by simp
  next
    case (Cons h r)
    with assms(2) have h: "frames s = [h]" by (simp add: frame_inv_def)
    with assms(3) have "startTime s = None" by simp
    then have "frames (animate p t (s\<lparr>frames := []\<rparr>)) = []"
      using assms(1) by (simp add: animate_def Let_def latch_def js_div_def)
    then show ?thesis using Frame h by simp
  qed
next
  case Unmount
  then show ?thesis using assms(2,3)
    by (auto simp: cleanup_def cancelAnimationFrame_def frame_inv_def
          split: option.splits list.splits if_splits)
qed

lemma zero_duration_run:
  assumes "duration_of p = 0" and "frame_inv s" and "frames s \<noteq> [] \<longrightarrow> startTime s = None"
  shows "frames (run p evs s) \<noteq> [] \<longrightarrow> startTime (run p evs s) = None"
  using assms(2,3)
proof (induction evs arbitrary: s)
  case Nil
  then show ?case by simp
next
  case (Cons e evs)
  have "frame_inv (step p e s)" using Cons.prems(1) by (rule frame_inv_step)
  moreover have "frames (step p e s) \<noteq> [] \<longrightarrow> startTime (step p e s) = None"
    using assms(1) Cons.prems by (rule zero_duration_step)
  ultimately show ?case using Cons.IH by simp
qed

lemma zero_duration_tick:
  assumes "duration_of p = 0" and "startTime s = None"
  shows "count (animate p ts s) = NaN \<and> frames (animate p ts s) = frames s"
  using assms by (simp add: animate_def Let_def latch_def js_div_def)

lemma negative_duration_progress:
  assumes "duration_of p < 0" and "latch (startTime s) ts \<le> ts"
  shows "\<exists>q. progress (animate p ts s) = Fin q \<and> q \<le> 0"
proof -
  let ?e = "ts - latch (startTime s) ts"
  let ?d = "duration_of p * 1000"
  from assms have d: "?d < 0" and "0 \<le> ?e" by simp_all
  then have "?e / ?d \<le> 0" by (simp add: divide_nonneg_neg)
  then have "min (?e / ?d) 1 \<le> 0" by simp
  moreover have "progress (animate p ts s) = Fin (min (?e / ?d) 1)"
    using d by (simp add: animate_def Let_def js_div_def requestAnimationFrame_def)
  ultimately show ?thesis by blast
qed

lemma negative_duration_tick:
  assumes "duration_of p < 0" and "latch (startTime s) ts \<le> ts"
  shows "frames (animate p ts s) \<noteq> []"
proof -
  let ?e = "ts - latch (startTime s) ts"
  let ?d = "duration_of p * 1000"
  from assms have "?d < 0" "0 \<le> ?e" by simp_all
  then have "?e / ?d \<le> 0" by (simp add: divide_nonneg_neg)
  then have "min (?e / ?d) 1 < 1" by simp
  with \<open>?d < 0\<close> show ?thesis
    by (simp add: animate_def Let_def js_div_def requestAnimationFrame_def)
qed

text \<open>
  Claim C7, as the code has it. No tick fails: a division by zero yields \<^verbatim>\<open>NaN\<close> or
  an infinity, never an error. With a duration of 0 the first tick of a run divides 0 by
  0, writes \<^verbatim>\<open>NaN\<close> as the count and requests no further frame. With a negative
  duration every tick whose timestamp is not before the latched start computes a
  progress of at most 0 and requests another frame: the loop does not stop by itself.
\<close>

theorem nonpositive_duration:
  assumes "s = run p evs init" and "frames s \<noteq> []"
  shows "(duration_of p = 0 \<longrightarrow>
            count (step p (Frame ts) s) = NaN \<and> frames (step p (Frame ts) s) = []) \<and>
         (duration_of p < 0 \<and> latch (startTime s) ts \<le> ts \<longrightarrow>
            (\<exists>q. progress (step p (Frame ts) s) = Fin q \<and> q \<le> 0) \<and>
            frames (step p (Frame ts) s) \<noteq> [])"
proof (intro conjI impI)
  have st: "step p (Frame ts) s = animate p ts (s\<lparr>frames := []\<rparr>)"
    using assms by (rule pending_tick)
  {
    assume z: "duration_of p = 0"
    have "frames init \<noteq> [] \<longrightarrow> startTime init = None" by (simp add: init_state)
    from zero_duration_run [OF z frame_inv_init this, of evs] assms
    have "startTime (s\<lparr>frames := []\<rparr>) = None" by simp
    from zero_duration_tick [OF z this, of ts]
    show "count (step p (Frame ts) s) = NaN" "frames (step p (Frame ts) s) = []"
      unfolding st by simp_all
  }
  {
    assume "duration_of p < 0 \<and> latch (startTime s) ts \<le> ts"
    then have n: "duration_of p < 0" "latch (startTime (s\<lparr>frames := []\<rparr>)) ts \<le> ts"
      by simp_all
    then show "frames (step p (Frame ts) s) \<noteq> []"
      unfolding st by (rule negative_duration_tick)
    from n show "\<exists>q. progress (step p (Frame ts) s) = Fin q \<and> q \<le> 0"
      unfolding st by (rule negative_duration_progress)
  }
qed

theorem nonpositive_duration_witness:
  "duration_of \<lparr>endp = 100, duration = Some 0, suffix = None\<rparr> = 0 \<and>
   frames (run \<lparr>endp = 100, duration = Some 0, suffix = None\<rparr> [Intersect True] init) \<noteq> [] \<and>
   count (run \<lparr>endp = 100, duration = Some 0, suffix = None\<rparr> [Intersect True, Frame 7] init) = NaN \<and>
   frames (run \<lparr>endp = 100, duration = Some 0, suffix = None\<rparr> [Intersect True, Frame 7] init) = [] \<and>
   duration_of \<lparr>endp = 100, duration = Some (- 1), suffix = None\<rparr> < 0 \<and>
   frames (run \<lparr>endp = 100, duration = Some (- 1), suffix = None\<rparr> [Intersect True, Frame 7] init) \<noteq> [] \<and>
   frames (run \<lparr>endp = 100, duration = Some (- 1), suffix = None\<rparr>
             [Intersect True, Frame 7, Frame 5000] init) \<noteq> []"
proof -
  let ?z = "\<lparr>endp = 100, duration = Some 0, suffix = None\<rparr>"
  let ?n = "\<lparr>endp = 100, duration = Some (- 1), suffix = None\<rparr>"
  have a: "duration_of ?z = 0" "frames (run ?z [Intersect True] init) \<noteq> []"
    by (simp_all add: eval_defs)
  from nonpositive_duration [OF refl a(2), of 7] a(1)
  have b: "count (step ?z (Frame 7) (run ?z [Intersect True] init)) = NaN"
    "frames (step ?z (Frame 7) (run ?z [Intersect True] init)) = []"
    by blast+
  have c: "duration_of ?n < 0" "frames (run ?n [Intersect True, Frame 7] init) \<noteq> []"
    "latch (startTime (run ?n [Intersect True, Frame 7] init)) 5000 \<le> 5000"
    by (simp_all add: eval_defs)
  from nonpositive_duration [OF refl c(2), of 5000] c(1,3)
  have d: "frames (step ?n (Frame 5000) (run ?n [Intersect True, Frame 7] init)) \<noteq> []"
    by blast
  from a b c d show ?thesis by simp
qed

text \<open>
  The claim as stated fails for a negative duration. With \<^verbatim>\<open>duration = -1\<close> and
  target 100 the counter is still requesting frames 1000 seconds after its start, the
  count at \<open>-100000\<close>; and on the frame timestamps 1, 2, 3, ... a frame is pending after
  every one of them.
\<close>

theorem nonpositive_duration_counterexample:
  "count (run \<lparr>endp = 100, duration = Some (- 1), suffix = None\<rparr>
            [Intersect True, Frame 1, Frame 1001, Frame 1000001] init) = Fin (- 100000) \<and>
   frames (run \<lparr>endp = 100, duration = Some (- 1), suffix = None\<rparr>
             [Intersect True, Frame 1, Frame 1001, Frame 1000001] init) \<noteq> [] \<and>
   (\<forall>n. frames (run \<lparr>endp = 100, duration = Some (- 1), suffix = None\<rparr>
                   (Intersect True # map (\<lambda>i. Frame (1 + real i)) [0..<n]) init) \<noteq> [])"
proof (intro conjI allI)
  let ?p = "\<lparr>endp = 100, duration = Some (- 1), suffix = None\<rparr>"
  let ?f = "\<lambda>i. Frame (1 + real i)"
  show "count (run ?p [Intersect True, Frame 1, Frame 1001, Frame 1000001] init) = Fin (- 100000)"
    by (simp add: eval_defs)
  show "frames (run ?p [Intersect True, Frame 1, Frame 1001, Frame 1000001] init) \<noteq> []"
    by (simp add: eval_defs)
  have d: "duration_of ?p < 0" by (simp add: duration_of_def)
  have inv: "frames (run ?p (Intersect True # map ?f [0..<n]) init) \<noteq> [] \<and>
      (\<forall>v. startTime (run ?p (Intersect True # map ?f [0..<n]) init) = Some v \<longrightarrow> v \<le> real n)"
    for n
  proof (induction n)
    case 0
    show ?case by (simp add: eval_defs)
  next
    case (Suc n)
    let ?s = "run ?p (Intersect True # map ?f [0..<n]) init"
    let ?t = "1 + real n"
    have r: "run ?p (Intersect True # map ?f [0..<Suc n]) init = step ?p (Frame ?t) ?s"
      by simp
    from Suc have pend: "frames ?s \<noteq> []" by blast
    have st: "step ?p (Frame ?t) ?s = animate ?p ?t (?s\<lparr>frames := []\<rparr>)"
      using refl pend by (rule pending_tick)
    have l: "latch (startTime ?s) ?t \<le> ?t"
    proof (cases "startTime ?s")
      case None
      then show ?thesis by (simp add: latch_def)
    next
      case (Some v)
      with Suc have "v \<le> real n" by blast
      with Some show ?thesis by (simp add: latch_def)
    qed
    then have l': "latch (startTime (?s\<lparr>frames := []\<rparr>)) ?t \<le> ?t" by simp
    have "frames (animate ?p ?t (?s\<lparr>frames := []\<rparr>)) \<noteq> []"
      using d l' by (rule negative_duration_tick)
    moreover have "startTime (animate ?p ?t (?s\<lparr>frames := []\<rparr>)) = Some (latch (startTime ?s) ?t)"
      using d animate_fields(3) [of ?p ?t "?s\<lparr>frames := []\<rparr>"] by simp
    ultimately show ?case unfolding r st using l by simp
  qed
  show "frames (run ?p (Intersect True # map ?f [0..<n]) init) \<noteq> []" for n
    using inv [of n] by blast
qed

subsection \<open>Progress along a run\<close>

lemma start_inv_weaken: "start_inv D T q st \<Longrightarrow> start_inv D (T @ T') q st"
  by (auto simp: start_inv_def split: option.splits)

lemma tick_inv_weaken: "tick_inv p T s \<Longrightarrow> tick_inv p (T @ T') s"
  unfolding tick_inv_def using start_inv_weaken by blast

lemma tick_inv_cong:
  assumes "tick_inv p T s" and "progress s' = progress s" and "count s' = count s"
    and "startTime s' = startTime s" and "frames s = [] \<longrightarrow> frames s' = []"
  shows "tick_inv p T s'"
  using assms unfolding tick_inv_def by auto

lemma tick_inv_animate:
  assumes d: "0 < duration_of p" and i: "tick_inv p T s0"
    and s: "s = s0\<lparr>frames := []\<rparr>" and pend: "frames s0 \<noteq> []"
    and le: "\<forall>x \<in> set T. x \<le> t"
  shows "tick_inv p (T @ [t]) (animate p t s)"
    and "\<exists>q q'. progress s0 = Fin q \<and> progress (animate p t s) = Fin q' \<and> q \<le> q'"
proof -
  let ?D = "duration_of p * 1000"
  let ?st = "latch (startTime s0) t"
  let ?q' = "min ((t - ?st) / ?D) 1"
  have D: "0 < ?D" using d by simp
  have dn: "duration_of p \<noteq> 0" using d by simp
  from i pend obtain q where q: "progress s0 = Fin q" "0 \<le> q" "q \<le> 1"
    and c: "start_inv ?D T q (startTime s0)"
    unfolding tick_inv_def by auto
  have st [simp]: "startTime s = startTime s0" using s by simp
  have f: "progress (animate p t s) = Fin ?q'"
    "count (animate p t s) = Fin \<lfloor>?q' * endp p\<rfloor>"
    "startTime (animate p t s) = Some ?st"
    using animate_fields [OF dn, of t s] by simp_all
  have A: "?st \<le> t \<and> q \<le> (t - ?st) / ?D \<and> (?st \<noteq> 0 \<or> t - ?st = 0)"
  proof (cases "startTime s0")
    case None
    with c q show ?thesis by (simp add: latch_def start_inv_def)
  next
    case (Some v)
    show ?thesis
    proof (cases "v = 0")
      case True
      with Some c show ?thesis by (simp add: latch_def start_inv_def)
    next
      case False
      from c Some obtain tl where tl: "tl \<in> set T" "v \<le> tl" "q \<le> (tl - v) / ?D"
        by (auto simp: start_inv_def)
      from tl(1) le have "tl \<le> t" by blast
      then have "(tl - v) / ?D \<le> (t - v) / ?D" using D by (simp add: divide_right_mono)
      with tl \<open>tl \<le> t\<close> False Some show ?thesis by (simp add: latch_def)
    qed
  qed
  then have e0: "0 \<le> (t - ?st) / ?D" using D by simp
  then have q0: "0 \<le> ?q'" by simp
  have q1: "?q' \<le> 1" by simp
  have qq: "q \<le> ?q'" using A q(3) by simp
  have z: "?st \<noteq> 0 \<or> ?q' = 0"
  proof (cases "?st = 0")
    case True
    with A have "t - ?st = 0" by blast
    then show ?thesis by simp
  next
    case False
    then show ?thesis by blast
  qed
  have ex: "\<exists>tl \<in> set (T @ [t]). ?st \<le> tl \<and> ?q' \<le> (tl - ?st) / ?D"
    using A by auto
  have "start_inv ?D (T @ [t]) ?q' (Some ?st)"
    unfolding start_inv_def using z ex by simp
  then show "tick_inv p (T @ [t]) (animate p t s)"
    unfolding tick_inv_def using f q0 q1 by auto
  show "\<exists>q q'. progress s0 = Fin q \<and> progress (animate p t s) = Fin q' \<and> q \<le> q'"
    using q(1) f(1) qq by blast
qed

lemma tick_inv_step:
  assumes d: "0 < duration_of p" and w: "frame_inv s" and i: "tick_inv p T s"
    and srt: "sorted (T @ frame_times [e])"
  shows "tick_inv p (T @ frame_times [e]) (step p e s)"
    and "\<exists>q q'. progress s = Fin q \<and> progress (step p e s) = Fin q' \<and> q \<le> q'"
proof -
  from i obtain q0 where q0: "progress s = Fin q0" unfolding tick_inv_def by blast
  have "tick_inv p (T @ frame_times [e]) (step p e s) \<and>
        (\<exists>q q'. progress s = Fin q \<and> progress (step p e s) = Fin q' \<and> q \<le> q')"
  proof (cases e)
    case (Intersect b)
    show ?thesis
    proof (cases "mounted s \<and> \<not> isInView s \<and> b")
      case True
      with w have z: "progress s = Fin 0" "count s = Fin 0" by (simp_all add: frame_inv_def)
      from True have st: "step p e s = effect (s\<lparr>isInView := True\<rparr>)"
        using Intersect by (simp add: useInView_def cleanup_def)
      show ?thesis unfolding st using z Intersect
        by (simp add: tick_inv_def start_inv_def effect_def requestAnimationFrame_def)
    next
      case False
      then have "step p e s = s" using Intersect by (auto simp: useInView_def)
      then show ?thesis using i q0 Intersect by auto
    qed
  next
    case (Frame t)
    show ?thesis
    proof (cases "frames s")
      case Nil
      then have "step p e s = s" using Frame by (simp add: step_Frame_idle)
      then show ?thesis using i q0 Frame tick_inv_weaken [of p T s "[t]"] by auto
    next
      case (Cons h r)
      with w have h: "frames s = [h]" by (simp add: frame_inv_def)
      then have st: "step p e s = animate p t (s\<lparr>frames := []\<rparr>)" using Frame by simp
      from srt Frame have le: "\<forall>x \<in> set T. x \<le> t" by (simp add: sorted_append)
      from h have pend: "frames s \<noteq> []" by simp
      from tick_inv_animate [OF d i refl pend le] show ?thesis
        unfolding st using Frame by simp
    qed
  next
    case Unmount
    have "progress (step p e s) = progress s" "count (step p e s) = count s"
      "startTime (step p e s) = startTime s"
      using Unmount by (auto simp: cleanup_def cancelAnimationFrame_def split: option.splits)
    moreover have "frames s = [] \<longrightarrow> frames (step p e s) = []"
      using Unmount by (auto simp: cleanup_def cancelAnimationFrame_def split: option.splits)
    ultimately have "tick_inv p T (step p e s)" "progress (step p e s) = Fin q0"
      using i q0 tick_inv_cong [of p T s "step p e s"] by simp_all
    then show ?thesis using q0 Unmount by auto
  qed
  then show "tick_inv p (T @ frame_times [e]) (step p e s)"
    and "\<exists>q q'. progress s = Fin q \<and> progress (step p e s) = Fin q' \<and> q \<le> q'"
    by blast+
qed

lemma tick_inv_init: "tick_inv p [] init"
  by (simp add: tick_inv_def init_state)

lemma tick_inv_run:
  assumes "0 < duration_of p" and "sorted (frame_times evs)"
  shows "tick_inv p (frame_times evs) (run p evs init)"
  using assms(2)
proof (induction evs rule: rev_induct)
  case Nil
  show ?case by (simp add: tick_inv_init)
next
  case (snoc e evs)
  from snoc.prems have s: "sorted (frame_times evs @ frame_times [e])" by simp
  then have "sorted (frame_times evs)" by (simp add: sorted_append)
  then have "tick_inv p (frame_times evs) (run p evs init)" by (rule snoc.IH)
  from tick_inv_step(1) [OF assms(1) frame_inv_reach this s] show ?case by simp
qed

lemma progress_mono:
  assumes "0 < duration_of p" and "sorted (frame_times (evs @ evs'))"
  shows "\<exists>q q'. progress (run p evs init) = Fin q \<and>
                progress (run p (evs @ evs') init) = Fin q' \<and> q \<le> q'"
  using assms(2)
proof (induction evs' rule: rev_induct)
  case Nil
  then have "tick_inv p (frame_times evs) (run p evs init)"
    using assms(1) by (simp add: tick_inv_run)
  then show ?case unfolding tick_inv_def by auto
next
  case (snoc e es)
  from snoc.prems have s: "sorted (frame_times (evs @ es) @ frame_times [e])" by simp
  then have s': "sorted (frame_times (evs @ es))" by (simp only: sorted_append)
  from snoc.IH [OF s'] obtain q q' where
    a: "progress (run p evs init) = Fin q" "progress (run p (evs @ es) init) = Fin q'" "q \<le> q'"
    by blast
  have "tick_inv p (frame_times (evs @ es)) (run p (evs @ es) init)"
    using assms(1) s' by (rule tick_inv_run)
  from tick_inv_step(2) [OF assms(1) frame_inv_reach this s] obtain r r' where
    b: "progress (run p (evs @ es) init) = Fin r"
       "progress (step p e (run p (evs @ es) init)) = Fin r'" "r \<le> r'"
    by blast
  from a b have "progress (run p (evs @ es @ [e]) init) = Fin r'" "q \<le> r'" by simp_all
  with a(1) show ?case by (metis append_assoc)
qed

lemma progress_count:
  assumes "0 < duration_of p" and "sorted (frame_times evs)"
  shows "\<exists>q. progress (run p evs init) = Fin q \<and> 0 \<le> q \<and> q \<le> 1 \<and>
             count (run p evs init) = Fin \<lfloor>q * endp p\<rfloor>"
  using tick_inv_run [OF assms] unfolding tick_inv_def by blast

lemma counts_along_run:
  assumes "0 < duration_of p" and "sorted (frame_times (evs @ evs'))"
  shows "\<exists>q q'. 0 \<le> q \<and> q \<le> q' \<and> q' \<le> 1 \<and>
           count (run p evs init) = Fin \<lfloor>q * endp p\<rfloor> \<and>
           count (run p (evs @ evs') init) = Fin \<lfloor>q' * endp p\<rfloor>"
proof -
  from assms(2) have srt: "sorted (frame_times evs)" by (simp add: sorted_append)
  from progress_count [OF assms(1) srt] obtain q where
    q: "progress (run p evs init) = Fin q" "0 \<le> q" "count (run p evs init) = Fin \<lfloor>q * endp p\<rfloor>"
    by blast
  from progress_count [OF assms] obtain q' where
    q': "progress (run p (evs @ evs') init) = Fin q'" "q' \<le> 1"
      "count (run p (evs @ evs') init) = Fin \<lfloor>q' * endp p\<rfloor>"
    by blast
  from progress_mono [OF assms] q(1) q'(1) have "q \<le> q'" by auto
  with q q' show ?thesis by blast
qed

subsection \<open>The tick formula\<close>

text \<open>
  Claim C2, evaluated where it fails. The claim measures the elapsed time from the run's
  start, the timestamp of its first tick. On the run whose first two frames come at 0 and
  at 1000 ms, with target 100 and the default duration, the spec's formula gives
  \<open>\<lfloor>1000 / 2000 * 100\<rfloor> = 50\<close> at the second tick; the code, which has taken the start 0
  for a start not yet captured and replaced it by 1000, writes 0. On the same two frames
  one millisecond later the code writes what the formula gives. Every number of these
  two runs is computed without rounding.
\<close>

theorem tick_formula_zero_start:
  "hd (frame_times [Intersect True, Frame 0, Frame 1000]) = 0 \<and>
   spec_displayed 0 1000
     (duration_of \<lparr>endp = 100, duration = None, suffix = None\<rparr> * 1000) 100 = 50 \<and>
   count (run \<lparr>endp = 100, duration = None, suffix = None\<rparr>
            [Intersect True, Frame 0, Frame 1000] init) = Fin 0 \<and>
   hd (frame_times [Intersect True, Frame 1, Frame 1001]) = 1 \<and>
   spec_displayed 1 1001
     (duration_of \<lparr>endp = 100, duration = None, suffix = None\<rparr> * 1000) 100 = 50 \<and>
   count (run \<lparr>endp = 100, duration = None, suffix = None\<rparr>
            [Intersect True, Frame 1, Frame 1001] init) = Fin 50"
  by (simp add: eval_defs spec_displayed_def spec_progress_def)

subsection \<open>Range and monotonicity\<close>

text \<open>
  Claim C3. For a positive duration, a non-negative integer target \<open>t\<close> and frame
  timestamps that do not decrease, the count at any two points of a run, the second
  later than the first, consists of integers \<open>k\<close> and \<open>k'\<close> with \<open>0 \<le> k \<le> k' \<le> t\<close>;
  for the target 0 the count is 0 throughout.
\<close>

theorem range_and_monotonicity:
  assumes "0 < duration_of p" and "endp p = of_int t" and "0 \<le> t"
    and "sorted (frame_times (evs @ evs'))"
  shows "(\<exists>k k'. count (run p evs init) = Fin k \<and> count (run p (evs @ evs') init) = Fin k' \<and>
                 0 \<le> k \<and> k \<le> k' \<and> k' \<le> t) \<and>
         (t = 0 \<longrightarrow> count (run p (evs @ evs') init) = Fin 0)"
proof -
  from counts_along_run [OF assms(1,4)] obtain q q' where
    q: "0 \<le> q" "q \<le> q'" "q' \<le> 1"
    and c: "count (run p evs init) = Fin \<lfloor>q * endp p\<rfloor>"
      "count (run p (evs @ evs') init) = Fin \<lfloor>q' * endp p\<rfloor>"
    by blast
  let ?t = "of_int t :: real"
  have t0: "0 \<le> ?t" using assms(3) by simp
  have "0 \<le> q * ?t" using q(1) t0 by simp
  then have k0: "0 \<le> \<lfloor>q * ?t\<rfloor>" by simp
  have "q * ?t \<le> q' * ?t" using q(2) t0 by (rule mult_right_mono)
  then have kk: "\<lfloor>q * ?t\<rfloor> \<le> \<lfloor>q' * ?t\<rfloor>" by (rule floor_mono)
  have "q' * ?t \<le> 1 * ?t" using q(3) t0 by (rule mult_right_mono)
  then have "\<lfloor>q' * ?t\<rfloor> \<le> \<lfloor>?t\<rfloor>" by (intro floor_mono) simp
  then have kt: "\<lfloor>q' * ?t\<rfloor> \<le> t" by simp
  have main: "\<exists>k k'. count (run p evs init) = Fin k \<and> count (run p (evs @ evs') init) = Fin k' \<and>
                 0 \<le> k \<and> k \<le> k' \<and> k' \<le> t"
    using c k0 kk kt unfolding assms(2) by blast
  then show ?thesis by auto
qed

theorem range_and_monotonicity_witness:
  "(0::real) < duration_of \<lparr>endp = 12847, duration = None, suffix = None\<rparr> \<and>
   sorted (frame_times ([Intersect True, Frame 5, Frame 1005] @ [Frame 1505, Frame 2500])) \<and>
   (\<exists>k k'. count (run \<lparr>endp = 12847, duration = None, suffix = None\<rparr>
                     [Intersect True, Frame 5, Frame 1005] init) = Fin k \<and>
           count (run \<lparr>endp = 12847, duration = None, suffix = None\<rparr>
                     ([Intersect True, Frame 5, Frame 1005] @ [Frame 1505, Frame 2500]) init) = Fin k' \<and>
           0 \<le> k \<and> k \<le> k' \<and> k' \<le> 12847)"
proof -
  let ?p = "\<lparr>endp = 12847, duration = None, suffix = None\<rparr>"
  have a: "0 < duration_of ?p" "endp ?p = of_int 12847" "(0::int) \<le> 12847"
    "sorted (frame_times ([Intersect True, Frame 5, Frame 1005] @ [Frame 1505, Frame 2500]))"
    by (simp_all add: eval_defs)
  from range_and_monotonicity [OF a] a(1,4) show ?thesis by blast
qed

subsection \<open>Negative targets\<close>



end
